theory Spec2Isabelle
  imports Main
begin

section \<open>Factory method: the phone products\<close>

text \<open>
  \<^verbatim>\<open>type Phone struct { status string; os string }\<close>.
  The methods have pointer receivers and print to standard output, so each
  mutating method returns the updated struct together with the lines it
  printed (one list element per \<^verbatim>\<open>fmt.Println\<close>).
\<close>

record Phone =
  status :: string
  os :: string

definition GetOS :: "Phone \<Rightarrow> string" where
  "GetOS p = os p"

definition TurnOn :: "Phone \<Rightarrow> Phone \<times> string list" where
  "TurnOn p =
     (if status p = ''on'' then (p, [])
      else (p\<lparr>status := ''on''\<rparr>, [''Turning phone on'']))"

definition TurnOff :: "Phone \<Rightarrow> Phone \<times> string list" where
  "TurnOff p =
     (if status p = ''off'' then (p, [])
      else (p\<lparr>status := ''off''\<rparr>, [''Turning phone off'']))"

text \<open>
  \<^verbatim>\<open>Android\<close> and \<^verbatim>\<open>Google\<close> embed a \<^verbatim>\<open>Phone\<close>; the interface
  \<^verbatim>\<open>IPhone\<close> is implemented by pointers to either. The three methods are
  promoted from the embedded struct.
\<close>

datatype IPhone = Android Phone | Google Phone

fun embedded :: "IPhone \<Rightarrow> Phone" where
  "embedded (Android p) = p"
| "embedded (Google p) = p"

fun IPhone_GetOS :: "IPhone \<Rightarrow> string" where
  "IPhone_GetOS (Android p) = GetOS p"
| "IPhone_GetOS (Google p) = GetOS p"

fun IPhone_TurnOn :: "IPhone \<Rightarrow> IPhone \<times> string list" where
  "IPhone_TurnOn (Android p) = (case TurnOn p of (p', out) \<Rightarrow> (Android p', out))"
| "IPhone_TurnOn (Google p) = (case TurnOn p of (p', out) \<Rightarrow> (Google p', out))"

fun IPhone_TurnOff :: "IPhone \<Rightarrow> IPhone \<times> string list" where
  "IPhone_TurnOff (Android p) = (case TurnOff p of (p', out) \<Rightarrow> (Android p', out))"
| "IPhone_TurnOff (Google p) = (case TurnOff p of (p', out) \<Rightarrow> (Google p', out))"

definition NewAndroid :: IPhone where
  "NewAndroid = Android \<lparr>status = ''off'', os = ''android''\<rparr>"

definition NewGoogle :: IPhone where
  "NewGoogle = Google \<lparr>status = ''off'', os = ''google''\<rparr>"

text \<open>A client of a device: any sequence of the two power calls, run in order,
  with the printed lines accumulated.\<close>

datatype power_call = CallTurnOn | CallTurnOff

fun power :: "power_call \<Rightarrow> IPhone \<Rightarrow> IPhone \<times> string list" where
  "power CallTurnOn d = IPhone_TurnOn d"
| "power CallTurnOff d = IPhone_TurnOff d"

fun powers :: "power_call list \<Rightarrow> IPhone \<Rightarrow> IPhone \<times> string list" where
  "powers [] d = (d, [])"
| "powers (c # cs) d =
     (case power c d of (d', out) \<Rightarrow>
        (case powers cs d' of (d'', out') \<Rightarrow> (d'', out @ out')))"

section \<open>Composite: the soldiers\<close>

subsection \<open>Objects and the store\<close>

text \<open>
  Every constructor returns a pointer and \<^verbatim>\<open>Add\<close> stores the pointers it is
  given, so the same object can be referred to from several places. The
  objects therefore live in an explicit store: a list of nodes, a reference
  being the position of its node. A container keeps the references of its
  members in its slice, in the order of the slice.

  A reference that is not a position of the store denotes no object; it stands
  for Go's \<^verbatim>\<open>nil\<close>, through which a method call panics.
\<close>

type_synonym ref = nat

datatype node =
    Division string "ref list"
  | Brigade string "ref list"
  | Platoon string "ref list"
  | Squad string "ref list"
  | Enlisted string

type_synonym heap = "node list"

datatype error = StackOverflow | NilDereference

definition deref :: "heap \<Rightarrow> ref \<Rightarrow> node option" where
  "deref h r = (if r < length h then Some (h ! r) else None)"

definition alloc :: "node \<Rightarrow> heap \<Rightarrow> ref \<times> heap" where
  "alloc nd h = (length h, h @ [nd])"

definition NewDivision :: "string \<Rightarrow> heap \<Rightarrow> ref \<times> heap" where
  "NewDivision name h = alloc (Division name []) h"

definition NewBrigade :: "string \<Rightarrow> heap \<Rightarrow> ref \<times> heap" where
  "NewBrigade name h = alloc (Brigade name []) h"

definition NewPlatoon :: "string \<Rightarrow> heap \<Rightarrow> ref \<times> heap" where
  "NewPlatoon name h = alloc (Platoon name []) h"

definition NewSquad :: "string \<Rightarrow> heap \<Rightarrow> ref \<times> heap" where
  "NewSquad name h = alloc (Squad name []) h"

definition NewEnlisted :: "string \<Rightarrow> heap \<Rightarrow> ref \<times> heap" where
  "NewEnlisted name h = alloc (Enlisted name) h"

subsection \<open>Add\<close>

text \<open>
  \<^verbatim>\<open>d.brigades = append(d.brigades, brigades...)\<close> and its three siblings;
  \<^verbatim>\<open>Enlisted.Add\<close> has an empty body. The interface call dispatches on the
  dynamic type of the receiver.
\<close>

definition Add :: "ref \<Rightarrow> ref list \<Rightarrow> heap \<Rightarrow> error + heap" where
  "Add r component h =
     (case deref h r of
        None \<Rightarrow> Inl NilDereference
      | Some (Division name brigades) \<Rightarrow> Inr (h[r := Division name (brigades @ component)])
      | Some (Brigade name platoons) \<Rightarrow> Inr (h[r := Brigade name (platoons @ component)])
      | Some (Platoon name squads) \<Rightarrow> Inr (h[r := Platoon name (squads @ component)])
      | Some (Squad name enlistees) \<Rightarrow> Inr (h[r := Squad name (enlistees @ component)])
      | Some (Enlisted name) \<Rightarrow> Inr h)"

subsection \<open>Brief\<close>

text \<open>\<^verbatim>\<open>%d\<close> of \<^verbatim>\<open>fmt.Sprintf\<close> on a slice length: the decimal digits.\<close>

function decimal :: "nat \<Rightarrow> string" where
  "decimal n =
     (if n < 10 then [''0123456789'' ! n]
      else decimal (n div 10) @ [''0123456789'' ! (n mod 10)])"
  by pat_completeness auto
termination
  by (relation "measure id") auto

declare decimal.simps [simp del]

text \<open>
  The five \<^verbatim>\<open>Brief\<close> methods. A container formats its message from the
  length of its slice, calls \<^verbatim>\<open>Brief\<close> on every member in slice order
  (\<open>brief_each\<close> is the \<^verbatim>\<open>for ... range\<close> loop) and then prints the message;
  an \<^verbatim>\<open>Enlisted\<close> prints the orders.

  The first argument bounds the number of nested calls, as the goroutine's
  stack does: a call that would need one more frame than allowed ends the
  run with \<open>StackOverflow\<close>. A run that fails at every bound is a recursion
  that never returns.

  Each printed line is recorded with the receiver of the method that printed
  it; \<open>printed\<close> forgets the receivers and is what standard output shows.
\<close>

type_synonym log = "(ref \<times> string) list"

fun Brief :: "nat \<Rightarrow> heap \<Rightarrow> ref \<Rightarrow> string \<Rightarrow> error + log"
  and brief_each :: "nat \<Rightarrow> heap \<Rightarrow> ref list \<Rightarrow> string \<Rightarrow> error + log"
where
  "Brief 0 h r orders = Inl StackOverflow"
| "Brief (Suc n) h r orders =
     (case deref h r of
        None \<Rightarrow> Inl NilDereference
      | Some (Division name brigades) \<Rightarrow>
          (let message = ''Briefing '' @ decimal (length brigades) @ '' Brigades''
           in case brief_each n h brigades orders of
                Inl e \<Rightarrow> Inl e
              | Inr out \<Rightarrow> Inr (out @ [(r, message)]))
      | Some (Brigade name platoons) \<Rightarrow>
          (let message = ''Briefing '' @ decimal (length platoons) @ '' Platoons''
           in case brief_each n h platoons orders of
                Inl e \<Rightarrow> Inl e
              | Inr out \<Rightarrow> Inr (out @ [(r, message)]))
      | Some (Platoon name squads) \<Rightarrow>
          (let message = ''Briefing '' @ decimal (length squads) @ '' Squads''
           in case brief_each n h squads orders of
                Inl e \<Rightarrow> Inl e
              | Inr out \<Rightarrow> Inr (out @ [(r, message)]))
      | Some (Squad name enlistees) \<Rightarrow>
          (let message = ''Briefing '' @ decimal (length enlistees) @ '' Enlistees''
           in case brief_each n h enlistees orders of
                Inl e \<Rightarrow> Inl e
              | Inr out \<Rightarrow> Inr (out @ [(r, message)]))
      | Some (Enlisted name) \<Rightarrow> Inr [(r, orders)])"
| "brief_each n h [] orders = Inr []"
| "brief_each n h (c # cs) orders =
     (case Brief n h c orders of
        Inl e \<Rightarrow> Inl e
      | Inr out \<Rightarrow>
          (case brief_each n h cs orders of
             Inl e \<Rightarrow> Inl e
           | Inr out' \<Rightarrow> Inr (out @ out')))"

definition printed :: "log \<Rightarrow> string list" where
  "printed out = map snd out"

subsection \<open>Clients\<close>

text \<open>
  A client builds a structure by calling the constructors and \<^verbatim>\<open>Add\<close>, in
  any order and with any references it holds. References are handed out in
  allocation order, so a client program can name them by number.
\<close>

datatype call =
    CallNewDivision string
  | CallNewBrigade string
  | CallNewPlatoon string
  | CallNewSquad string
  | CallNewEnlisted string
  | CallAdd ref "ref list"

fun exec :: "call \<Rightarrow> heap \<Rightarrow> error + heap" where
  "exec (CallNewDivision name) h = Inr (snd (NewDivision name h))"
| "exec (CallNewBrigade name) h = Inr (snd (NewBrigade name h))"
| "exec (CallNewPlatoon name) h = Inr (snd (NewPlatoon name h))"
| "exec (CallNewSquad name) h = Inr (snd (NewSquad name h))"
| "exec (CallNewEnlisted name) h = Inr (snd (NewEnlisted name h))"
| "exec (CallAdd r component) h = Add r component h"

fun run :: "call list \<Rightarrow> heap \<Rightarrow> error + heap" where
  "run [] h = Inr h"
| "run (c # cs) h = (case exec c h of Inl e \<Rightarrow> Inl e | Inr h' \<Rightarrow> run cs h')"

text \<open>The example of the specification: a division over a brigade over a
  platoon over a squad of two enlisted soldiers.\<close>

definition scenario :: "call list" where
  "scenario =
     [CallNewDivision ''1st'', CallNewBrigade ''A'', CallNewPlatoon ''1'',
      CallNewSquad ''alpha'', CallNewEnlisted ''Smith'', CallNewEnlisted ''Jones'',
      CallAdd 3 [4, 5], CallAdd 2 [3], CallAdd 1 [2], CallAdd 0 [1]]"

text \<open>A division added to itself, and a division and a brigade added to
  each other.\<close>

definition self_member :: "call list" where
  "self_member = [CallNewDivision ''1st'', CallAdd 0 [0]]"

definition mutual_members :: "call list" where
  "mutual_members =
     [CallNewDivision ''1st'', CallNewBrigade ''A'', CallAdd 0 [1], CallAdd 1 [0]]"

subsection \<open>Structures\<close>

text \<open>
  The structure below a reference, unfolded: the reference, and the unfolded
  structures of the members of its slice, in slice order. A store \<open>holds\<close> a
  shape when every node of the shape is an object whose slice lists exactly the
  roots of the sub-shapes. Only a finite unfolding is a shape, so a reference
  that reaches itself has none. An object that is referred to twice occurs
  twice in the shape; the structure is a tree when no reference repeats.
\<close>

datatype shape = Shape ref "shape list"

fun root :: "shape \<Rightarrow> ref" where
  "root (Shape r ts) = r"

text \<open>The slice of a node (an enlisted soldier has none), the node with
  more references appended to its slice, and whether a node is an enlisted
  soldier.\<close>

fun members :: "node \<Rightarrow> ref list" where
  "members (Division name brigades) = brigades"
| "members (Brigade name platoons) = platoons"
| "members (Platoon name squads) = squads"
| "members (Squad name enlistees) = enlistees"
| "members (Enlisted name) = []"

fun append_members :: "node \<Rightarrow> ref list \<Rightarrow> node" where
  "append_members (Division name brigades) component = Division name (brigades @ component)"
| "append_members (Brigade name platoons) component = Brigade name (platoons @ component)"
| "append_members (Platoon name squads) component = Platoon name (squads @ component)"
| "append_members (Squad name enlistees) component = Squad name (enlistees @ component)"
| "append_members (Enlisted name) component = Enlisted name"

fun enlisted :: "node \<Rightarrow> bool" where
  "enlisted (Enlisted name) = True"
| "enlisted nd = False"

fun holds :: "heap \<Rightarrow> shape \<Rightarrow> bool" where
  "holds h (Shape r ts) =
     (case deref h r of
        None \<Rightarrow> False
      | Some nd \<Rightarrow> members nd = map root ts \<and> list_all (holds h) ts)"

fun refs :: "shape \<Rightarrow> ref list" where
  "refs (Shape r ts) = r # concat (map refs ts)"

definition tree :: "heap \<Rightarrow> shape \<Rightarrow> bool" where
  "tree h t = (holds h t \<and> distinct (refs t))"

text \<open>The number of nodes on the longest path from the root down; the height
  is one less.\<close>

fun levels :: "shape \<Rightarrow> nat" where
  "levels (Shape r ts) = Suc (foldr max (map levels ts) 0)"

definition height :: "shape \<Rightarrow> nat" where
  "height t = levels t - 1"

text \<open>The message a container prints about itself.\<close>

fun message :: "node \<Rightarrow> string" where
  "message (Division name brigades) = ''Briefing '' @ decimal (length brigades) @ '' Brigades''"
| "message (Brigade name platoons) = ''Briefing '' @ decimal (length platoons) @ '' Platoons''"
| "message (Platoon name squads) = ''Briefing '' @ decimal (length squads) @ '' Squads''"
| "message (Squad name enlistees) = ''Briefing '' @ decimal (length enlistees) @ '' Enlistees''"
| "message (Enlisted name) = []"

text \<open>
  The broadcast of the specification over a shape: a leaf emits the orders; a
  container lets every sub-shape emit, in order, and then emits its own
  message.
\<close>

fun broadcast :: "heap \<Rightarrow> string \<Rightarrow> shape \<Rightarrow> log" where
  "broadcast h orders (Shape r ts) =
     (case deref h r of
        None \<Rightarrow> []
      | Some nd \<Rightarrow>
          if enlisted nd then [(r, orders)]
          else concat (map (broadcast h orders) ts) @ [(r, message nd)])"

text \<open>The ancestors of a node: \<open>ancestor h a c\<close> when \<open>c\<close> is reached from
  \<open>a\<close> through one or more slices.\<close>

definition has_member :: "heap \<Rightarrow> ref \<Rightarrow> ref \<Rightarrow> bool" where
  "has_member h a c = (case deref h a of Some nd \<Rightarrow> c \<in> set (members nd) | None \<Rightarrow> False)"

inductive ancestor :: "heap \<Rightarrow> ref \<Rightarrow> ref \<Rightarrow> bool" for h :: heap where
  direct: "has_member h a c \<Longrightarrow> ancestor h a c"
| further: "has_member h a b \<Longrightarrow> ancestor h b c \<Longrightarrow> ancestor h a c"

text \<open>The shape of the example, and what \<^verbatim>\<open>Add\<close> does to a shape: the
  shapes of the new members are appended below every occurrence of the
  receiver.\<close>

definition scenario_shape :: shape where
  "scenario_shape = Shape 0 [Shape 1 [Shape 2 [Shape 3 [Shape 4 [], Shape 5 []]]]]"

fun graft :: "ref \<Rightarrow> shape list \<Rightarrow> shape \<Rightarrow> shape" where
  "graft r new (Shape x ts) = Shape x (map (graft r new) ts @ (if x = r then new else []))"

text \<open>The references a client program has added to a receiver, in call
  order.\<close>

fun added :: "ref \<Rightarrow> call list \<Rightarrow> ref list" where
  "added r [] = []"
| "added r (CallAdd r' component # prog) = (if r' = r then component else []) @ added r prog"
| "added r (c # prog) = added r prog"

text \<open>The slice behind a reference, empty where the reference denotes no
  object.\<close>

definition slice :: "heap \<Rightarrow> ref \<Rightarrow> ref list" where
  "slice h r = (case deref h r of Some nd \<Rightarrow> members nd | None \<Rightarrow> [])"

text \<open>Whether a reference denotes an enlisted soldier, and the enlisted
  soldiers of a shape in the order of the traversal.\<close>

definition is_enlisted :: "heap \<Rightarrow> ref \<Rightarrow> bool" where
  "is_enlisted h r = (case deref h r of Some nd \<Rightarrow> enlisted nd | None \<Rightarrow> False)"

definition leaves :: "heap \<Rightarrow> shape \<Rightarrow> ref list" where
  "leaves h t = filter (is_enlisted h) (refs t)"

subsection \<open>Phone calls through the interface\<close>

text \<open>
  A client holds a device as an \<^verbatim>\<open>IPhone\<close> interface value, and such a value
  may be \<^verbatim>\<open>nil\<close> (or hold a nil pointer), which is \<open>None\<close> here. A method
  call through it panics with a nil dereference; through a device it runs the
  method, whose body has no failing statement. Both constructors return the
  address of a fresh struct, so what they return is never \<open>None\<close>.
\<close>

definition call_GetOS :: "IPhone option \<Rightarrow> error + string" where
  "call_GetOS i = (case i of None \<Rightarrow> Inl NilDereference | Some d \<Rightarrow> Inr (IPhone_GetOS d))"

definition call_TurnOn :: "IPhone option \<Rightarrow> error + IPhone \<times> string list" where
  "call_TurnOn i = (case i of None \<Rightarrow> Inl NilDereference | Some d \<Rightarrow> Inr (IPhone_TurnOn d))"

definition call_TurnOff :: "IPhone option \<Rightarrow> error + IPhone \<times> string list" where
  "call_TurnOff i = (case i of None \<Rightarrow> Inl NilDereference | Some d \<Rightarrow> Inr (IPhone_TurnOff d))"

text \<open>A client of a device that may fail: the power calls in order, each
  through the interface value, stopping at the first panic; then
  \<^verbatim>\<open>GetOS\<close>. The result is the string and the lines printed on the way.\<close>

fun call_powers :: "power_call list \<Rightarrow> IPhone option \<Rightarrow> error + IPhone option \<times> string list" where
  "call_powers [] i = Inr (i, [])"
| "call_powers (c # cs) i =
     (case (case c of CallTurnOn \<Rightarrow> call_TurnOn i | CallTurnOff \<Rightarrow> call_TurnOff i) of
        Inl e \<Rightarrow> Inl e
      | Inr (d, out) \<Rightarrow>
          (case call_powers cs (Some d) of
             Inl e \<Rightarrow> Inl e
           | Inr (i', out') \<Rightarrow> Inr (i', out @ out')))"

section \<open>Properties\<close>

lemma decimal_digit: "n < 10 \<Longrightarrow> decimal n = [''0123456789'' ! n]"
  by (simp add: decimal.simps)

lemma run_scenario:
  "run scenario [] =
     Inr [Division ''1st'' [1], Brigade ''A'' [2], Platoon ''1'' [3],
          Squad ''alpha'' [4, 5], Enlisted ''Smith'', Enlisted ''Jones'']"
  by (simp add: scenario_def NewDivision_def NewBrigade_def NewPlatoon_def
      NewSquad_def NewEnlisted_def alloc_def Add_def deref_def)

subsection \<open>Brief on a structure\<close>

lemma Brief_enlisted:
  "deref h r = Some nd \<Longrightarrow> enlisted nd \<Longrightarrow> Brief (Suc n) h r orders = Inr [(r, orders)]"
  by (cases nd) simp_all

lemma Brief_container:
  "deref h r = Some nd \<Longrightarrow> \<not> enlisted nd \<Longrightarrow>
   Brief (Suc n) h r orders =
     (case brief_each n h (members nd) orders of
        Inl e \<Rightarrow> Inl e
      | Inr out \<Rightarrow> Inr (out @ [(r, message nd)]))"
  by (cases nd) (auto split: sum.splits)

lemma levels_sub: "t \<in> set ts \<Longrightarrow> levels t \<le> foldr max (map levels ts) 0"
  by (induction ts) auto

lemma brief_each_shapes:
  assumes "\<And>t. t \<in> set ts \<Longrightarrow> Brief n h (root t) orders = Inr (broadcast h orders t)"
  shows "brief_each n h (map root ts) orders = Inr (concat (map (broadcast h orders) ts))"
  using assms by (induction ts) simp_all

lemma Brief_broadcast:
  "holds h t \<Longrightarrow> levels t \<le> n \<Longrightarrow> Brief n h (root t) orders = Inr (broadcast h orders t)"
proof (induction t arbitrary: n)
  case (Shape r ts)
  from Shape.prems(1) obtain nd where nd: "deref h r = Some nd" "members nd = map root ts"
    and sub: "list_all (holds h) ts"
    by (auto split: option.splits)
  from Shape.prems(2) obtain m where n: "n = Suc m" and m: "foldr max (map levels ts) 0 \<le> m"
    by (cases n) auto
  show ?case
  proof (cases "enlisted nd")
    case True
    then show ?thesis using nd n by (simp add: Brief_enlisted del: Brief.simps)
  next
    case False
    have "brief_each m h (map root ts) orders = Inr (concat (map (broadcast h orders) ts))"
    proof (rule brief_each_shapes)
      fix t assume t: "t \<in> set ts"
      with sub have "holds h t" by (simp add: list_all_iff)
      moreover from t m have "levels t \<le> m" using levels_sub le_trans by blast
      ultimately show "Brief m h (root t) orders = Inr (broadcast h orders t)"
        using Shape.IH t by blast
    qed
    then show ?thesis using nd n False by (simp add: Brief_container del: Brief.simps)
  qed
qed

lemma brief_each_overflow:
  assumes "\<And>t. t \<in> set ts \<Longrightarrow>
            Brief n h (root t) orders = Inl StackOverflow \<or> (\<exists>out. Brief n h (root t) orders = Inr out)"
    and "\<exists>t \<in> set ts. Brief n h (root t) orders = Inl StackOverflow"
  shows "brief_each n h (map root ts) orders = Inl StackOverflow"
  using assms
proof (induction ts)
  case Nil
  then show ?case by simp
next
  case (Cons t ts)
  from Cons.prems(1)[of t]
  consider "Brief n h (root t) orders = Inl StackOverflow"
    | out where "Brief n h (root t) orders = Inr out"
    by auto
  then show ?case
  proof cases
    case 1
    then show ?thesis by simp
  next
    case 2
    with Cons.prems(2) have "\<exists>t \<in> set ts. Brief n h (root t) orders = Inl StackOverflow"
      by auto
    then have "brief_each n h (map root ts) orders = Inl StackOverflow"
      using Cons.IH Cons.prems(1) by simp
    with 2 show ?thesis by simp
  qed
qed

lemma foldr_max_witness:
  "m < foldr max (map f ts) (0::nat) \<Longrightarrow> \<exists>t \<in> set ts. m < f t"
  by (induction ts) (auto simp: max_def split: if_splits)

lemma Brief_overflow:
  "holds h t \<Longrightarrow> n < levels t \<Longrightarrow> Brief n h (root t) orders = Inl StackOverflow"
proof (induction t arbitrary: n)
  case (Shape r ts)
  from Shape.prems(1) obtain nd where nd: "deref h r = Some nd" "members nd = map root ts"
    and sub: "list_all (holds h) ts"
    by (auto split: option.splits)
  show ?case
  proof (cases n)
    case 0
    then show ?thesis by simp
  next
    case (Suc m)
    with Shape.prems(2) have m: "m < foldr max (map levels ts) 0" by simp
    then obtain u where u: "u \<in> set ts" "m < levels u"
      using foldr_max_witness by blast
    then have "ts \<noteq> []" by auto
    with nd have ne: "\<not> enlisted nd" by (cases nd) auto
    have "brief_each m h (map root ts) orders = Inl StackOverflow"
    proof (rule brief_each_overflow)
      fix t assume t: "t \<in> set ts"
      with sub have ht: "holds h t" by (simp add: list_all_iff)
      show "Brief m h (root t) orders = Inl StackOverflow \<or>
            (\<exists>out. Brief m h (root t) orders = Inr out)"
      proof (cases "m < levels t")
        case True
        then show ?thesis using Shape.IH t ht by blast
      next
        case False
        then show ?thesis using Brief_broadcast[OF ht, of m orders] by simp
      qed
    next
      from u sub have "holds h u" by (simp add: list_all_iff)
      with u show "\<exists>t \<in> set ts. Brief m h (root t) orders = Inl StackOverflow"
        using Shape.IH by blast
    qed
    then show ?thesis using nd Suc ne by (simp add: Brief_container del: Brief.simps)
  qed
qed

lemma holds_member:
  "holds h (Shape r ts) \<Longrightarrow> has_member h r c \<Longrightarrow> \<exists>s \<in> set ts. root s = c \<and> holds h s"
  by (auto simp: has_member_def list_all_iff split: option.splits)

lemma levels_sub_less: "s \<in> set ts \<Longrightarrow> levels s < levels (Shape r ts)"
  using levels_sub[of s ts] by simp

lemma ancestor_sub:
  "ancestor h a c \<Longrightarrow> holds h t \<Longrightarrow> root t = a \<Longrightarrow>
   \<exists>s. holds h s \<and> root s = c \<and> levels s < levels t"
proof (induction arbitrary: t rule: ancestor.induct)
  case (direct a c)
  then show ?case
    by (cases t) (metis holds_member levels_sub_less root.simps)
next
  case (further a b c)
  obtain r ts where t: "t = Shape r ts" by (cases t)
  with further.prems further.hyps(1) obtain s where s: "s \<in> set ts" "root s = b" "holds h s"
    using holds_member by fastforce
  with further.IH obtain s' where "holds h s'" "root s' = c" "levels s' < levels s"
    by blast
  moreover from s t have "levels s < levels t" using levels_sub_less by blast
  ultimately show ?case using less_trans by blast
qed

lemma holds_no_cycle: "holds h t \<Longrightarrow> \<not> ancestor h (root t) (root t)"
proof (induction "levels t" arbitrary: t rule: less_induct)
  case less
  show ?case
  proof
    assume a: "ancestor h (root t) (root t)"
    with less.prems obtain s where s: "holds h s" "root s = root t" "levels s < levels t"
      using ancestor_sub by blast
    with less.hyps have "\<not> ancestor h (root s) (root s)" by blast
    with a s show False by simp
  qed
qed

lemma run_self_member: "run self_member [] = Inr [Division ''1st'' [0]]"
  by (simp add: self_member_def NewDivision_def alloc_def Add_def deref_def)

lemma run_mutual_members: "run mutual_members [] = Inr [Division ''1st'' [1], Brigade ''A'' [0]]"
  by (simp add: mutual_members_def NewDivision_def NewBrigade_def alloc_def Add_def deref_def)

lemma self_member_overflow: "Brief n [Division ''1st'' [0]] 0 orders = Inl StackOverflow"
  by (induction n) (simp_all add: deref_def)

lemma mutual_members_overflow:
  "Brief n [Division ''1st'' [1], Brigade ''A'' [0]] 0 orders = Inl StackOverflow \<and>
   Brief n [Division ''1st'' [1], Brigade ''A'' [0]] 1 orders = Inl StackOverflow"
  by (induction n) (simp_all add: deref_def)

subsection \<open>The store under allocation and Add\<close>

lemma deref_update:
  "deref (h[r := nd]) x = (if x = r \<and> r < length h then Some nd else deref h x)"
  by (simp add: deref_def)

lemma deref_append:
  "deref (h @ [nd]) x = (if x = length h then Some nd else deref h x)"
  by (auto simp: deref_def nth_append)

lemma holds_update:
  "holds h t \<Longrightarrow> r \<notin> set (refs t) \<Longrightarrow> holds (h[r := nd]) t"
proof (induction t)
  case (Shape x ts)
  then have "list_all (holds (h[r := nd])) ts"
    by (auto simp: list_all_iff split: option.splits)
  with Shape.prems show ?case
    by (auto simp: deref_update split: option.splits)
qed

lemma holds_append: "holds h t \<Longrightarrow> holds (h @ [nd]) t"
proof (induction t)
  case (Shape x ts)
  then have sub: "list_all (holds (h @ [nd])) ts"
    by (auto simp: list_all_iff split: option.splits)
  from Shape.prems obtain nd0 where nd0: "deref h x = Some nd0" "members nd0 = map root ts"
    by (auto split: option.splits)
  then have "x \<noteq> length h" by (auto simp: deref_def split: if_splits)
  with nd0 sub show ?case by (simp add: deref_append)
qed

lemma root_graft: "root (graft r new t) = root t"
  by (cases t) simp

lemma holds_graft:
  assumes nd: "deref h r = Some nd" and nd': "members nd' = members nd @ map root new"
    and new: "list_all (holds h) new" and fresh: "r \<notin> set (concat (map refs new))"
  shows "holds h t \<Longrightarrow> holds (h[r := nd']) (graft r new t)"
proof (induction t)
  case (Shape x ts)
  from nd have r: "r < length h" by (auto simp: deref_def split: if_splits)
  from Shape have sub: "list_all (holds (h[r := nd'])) (map (graft r new) ts)"
    by (auto simp: list_all_iff split: option.splits)
  have roots: "map root (map (graft r new) ts) = map root ts"
    by (simp add: root_graft)
  show ?case
  proof (cases "x = r")
    case True
    from new fresh have "list_all (holds (h[r := nd'])) new"
      by (auto simp: list_all_iff intro!: holds_update)
    with True Shape.prems nd nd' sub r roots show ?thesis
      by (simp add: deref_update)
  next
    case False
    with Shape.prems sub roots show ?thesis
      by (auto simp: deref_update split: option.splits)
  qed
qed

lemma distinct_count_list: "distinct xs \<longleftrightarrow> (\<forall>x. count_list xs x \<le> 1)"
proof (induction xs)
  case Nil
  show ?case by simp
next
  case (Cons a xs)
  show ?case
  proof
    assume "distinct (a # xs)"
    then show "\<forall>x. count_list (a # xs) x \<le> 1"
      using Cons.IH by (auto simp: count_list_0_iff)
  next
    assume c: "\<forall>x. count_list (a # xs) x \<le> 1"
    then have "count_list (a # xs) a \<le> 1" by blast
    then have "a \<notin> set xs" by (simp add: count_list_0_iff)
    moreover have "\<forall>x. count_list xs x \<le> 1"
    proof
      fix x from c have "count_list (a # xs) x \<le> 1" by blast
      then show "count_list xs x \<le> 1" by (simp split: if_splits)
    qed
    ultimately show "distinct (a # xs)" using Cons.IH by simp
  qed
qed

lemma count_concat_graft:
  assumes "\<And>t. t \<in> set ts \<Longrightarrow>
     count_list (refs (graft r new t)) y = count_list (refs t) y + count_list (refs t) r * k"
  shows "count_list (concat (map refs (map (graft r new) ts))) y =
         count_list (concat (map refs ts)) y + count_list (concat (map refs ts)) r * k"
  using assms by (induction ts) (simp_all add: algebra_simps)

lemma count_refs_graft:
  "count_list (refs (graft r new t)) y =
     count_list (refs t) y + count_list (refs t) r * count_list (concat (map refs new)) y"
proof (induction t)
  case (Shape x ts)
  have "count_list (concat (map refs (map (graft r new) ts))) y =
         count_list (concat (map refs ts)) y +
         count_list (concat (map refs ts)) r * count_list (concat (map refs new)) y"
    by (rule count_concat_graft) (rule Shape.IH)
  then show ?case by (simp add: algebra_simps)
qed

lemma distinct_refs_graft:
  assumes "distinct (refs t)" "distinct (concat (map refs new))"
    and "set (refs t) \<inter> set (concat (map refs new)) = {}"
  shows "distinct (refs (graft r new t))"
  unfolding distinct_count_list
proof
  fix y
  let ?N = "concat (map refs new)"
  from assms(1) have t: "count_list (refs t) y \<le> 1" "count_list (refs t) r \<le> 1"
    by (simp_all add: distinct_count_list)
  from assms(2) have n: "count_list ?N y \<le> 1" by (simp add: distinct_count_list)
  from assms(3) have "count_list (refs t) y = 0 \<or> count_list ?N y = 0"
    by (auto simp: count_list_0_iff)
  then have "count_list (refs t) y + count_list (refs t) r * count_list ?N y \<le> 1"
  proof
    assume "count_list (refs t) y = 0"
    moreover have "count_list (refs t) r * count_list ?N y \<le> 1 * 1"
      using t(2) n by (rule mult_le_mono)
    ultimately show ?thesis by simp
  next
    assume "count_list ?N y = 0"
    with t(1) show ?thesis by simp
  qed
  then show "count_list (refs (graft r new t)) y \<le> 1"
    by (simp add: count_refs_graft)
qed

lemma set_refs_graft: "set (refs (graft r new t)) \<subseteq> set (refs t) \<union> set (concat (map refs new))"
proof
  fix y assume "y \<in> set (refs (graft r new t))"
  then have "count_list (refs (graft r new t)) y \<noteq> 0" by (simp add: count_list_0_iff)
  then have "count_list (refs t) y \<noteq> 0 \<or> count_list (concat (map refs new)) y \<noteq> 0"
    by (auto simp: count_refs_graft)
  then show "y \<in> set (refs t) \<union> set (concat (map refs new))"
    by (auto simp: count_list_0_iff)
qed

lemma holds_sub:
  "holds h t \<Longrightarrow> x \<in> set (refs t) \<Longrightarrow> \<exists>s. holds h s \<and> root s = x"
proof (induction t)
  case (Shape r ts)
  show ?case
  proof (cases "x = r")
    case True
    with Shape.prems(1) show ?thesis by (metis root.simps)
  next
    case False
    with Shape.prems(2) obtain u where u: "u \<in> set ts" "x \<in> set (refs u)" by auto
    with Shape.prems(1) have "holds h u" by (auto simp: list_all_iff split: option.splits)
    with u show ?thesis using Shape.IH by blast
  qed
qed

lemma holds_no_ancestor_of_itself:
  "holds h t \<Longrightarrow> x \<in> set (refs t) \<Longrightarrow> \<not> ancestor h x x"
  using holds_sub holds_no_cycle by blast

lemma Add_append_members:
  "deref h r = Some nd \<Longrightarrow> Add r component h = Inr (h[r := append_members nd component])"
proof (cases "enlisted nd")
  case True
  assume "deref h r = Some nd"
  then have "h ! r = nd" by (simp add: deref_def split: if_splits)
  then have "h[r := nd] = h" by (metis list_update_id)
  with True \<open>deref h r = Some nd\<close> show ?thesis by (cases nd) (simp_all add: Add_def)
next
  case False
  assume "deref h r = Some nd"
  with False show ?thesis by (cases nd) (simp_all add: Add_def)
qed

lemma members_append_members:
  "members (append_members nd component) = (if enlisted nd then [] else members nd @ component)"
  by (cases nd) simp_all

lemma enlisted_append_members: "enlisted (append_members nd component) = enlisted nd"
  by (cases nd) simp_all

lemma append_members_enlisted: "enlisted nd \<Longrightarrow> append_members nd component = nd"
  by (cases nd) simp_all

lemma append_members_Nil: "append_members nd [] = nd"
  by (cases nd) simp_all

subsection \<open>What a client has added\<close>

lemma exec_constructor:
  "(\<And>r component. c \<noteq> CallAdd r component) \<Longrightarrow>
   \<exists>nd. members nd = [] \<and> exec c h = Inr (h @ [nd])"
proof (cases c)
  case (CallNewEnlisted name)
  then have "members (Enlisted name) = [] \<and> exec c h = Inr (h @ [Enlisted name])"
    by (simp add: NewEnlisted_def alloc_def)
  then show ?thesis by blast
qed (auto simp: NewDivision_def NewBrigade_def NewPlatoon_def NewSquad_def alloc_def)

lemma exec_Add:
  "exec (CallAdd r component) h = Inr h' \<Longrightarrow>
   \<exists>nd. deref h r = Some nd \<and> h' = h[r := append_members nd component]"
proof (cases "deref h r")
  case None
  assume "exec (CallAdd r component) h = Inr h'"
  with None show ?thesis by (simp add: Add_def)
next
  case (Some nd)
  assume "exec (CallAdd r component) h = Inr h'"
  with Some show ?thesis using Add_append_members[OF Some, of component] by simp
qed

lemma deref_valid: "deref h r = Some nd \<Longrightarrow> r < length h \<and> h ! r = nd"
  by (simp add: deref_def split: if_splits)

lemma deref_length: "deref h (length h) = None"
  by (simp add: deref_def)

lemma update_deref: "deref h r = Some nd \<Longrightarrow> h[r := nd] = h"
  using deref_valid list_update_id by metis

lemma exec_is_enlisted:
  assumes e: "exec c h = Inr h'" and nd: "deref h r = Some nd"
  shows "\<exists>nd'. deref h' r = Some nd' \<and> enlisted nd' = enlisted nd"
proof (cases "\<exists>r' component. c = CallAdd r' component")
  case True
  then obtain r' component where c: "c = CallAdd r' component" by blast
  with e obtain nd0 where nd0: "deref h r' = Some nd0"
    and h': "h' = h[r' := append_members nd0 component]"
    using exec_Add by blast
  show ?thesis
  proof (cases "r = r'")
    case True
    with nd nd0 h' show ?thesis
      using deref_valid[OF nd] by (simp add: deref_update enlisted_append_members)
  next
    case False
    with nd h' show ?thesis by (simp add: deref_update)
  qed
next
  case False
  then obtain new where "exec c h = Inr (h @ [new])" using exec_constructor by blast
  with e have "h' = h @ [new]" by simp
  moreover from nd have "r \<noteq> length h" using deref_valid by fastforce
  ultimately show ?thesis using nd by (simp add: deref_append)
qed

lemma run_is_enlisted:
  "run prog h = Inr h' \<Longrightarrow> deref h r = Some nd \<Longrightarrow>
   \<exists>nd'. deref h' r = Some nd' \<and> enlisted nd' = enlisted nd"
proof (induction prog arbitrary: h nd)
  case Nil
  then show ?case by simp
next
  case (Cons c prog)
  from Cons.prems(1) obtain h1 where h1: "exec c h = Inr h1" "run prog h1 = Inr h'"
    by (auto split: sum.splits)
  from exec_is_enlisted[OF h1(1) Cons.prems(2)] obtain nd1
    where "deref h1 r = Some nd1" "enlisted nd1 = enlisted nd" by blast
  with Cons.IH[OF h1(2)] show ?case by metis
qed

lemma added_constructor:
  "(\<And>r' component. c \<noteq> CallAdd r' component) \<Longrightarrow> added r (c # prog) = added r prog"
  by (cases c) auto

lemma exec_slice:
  assumes e: "exec c h = Inr h1" and ne: "\<not> is_enlisted h1 r"
  shows "slice h1 r = slice h r @ added r [c]"
proof (cases "\<exists>r' component. c = CallAdd r' component")
  case True
  then obtain r' component where c: "c = CallAdd r' component" by blast
  with e obtain nd0 where nd0: "deref h r' = Some nd0"
    and h1: "h1 = h[r' := append_members nd0 component]"
    using exec_Add by blast
  from nd0 have r': "r' < length h" using deref_valid by blast
  show ?thesis
  proof (cases "r' = r")
    case True
    with ne h1 r' have "\<not> enlisted nd0"
      by (simp add: is_enlisted_def deref_update enlisted_append_members)
    with True h1 r' nd0 c show ?thesis
      by (simp add: slice_def deref_update members_append_members)
  next
    case False
    with h1 c show ?thesis by (simp add: slice_def deref_update)
  qed
next
  case False
  then obtain new where new: "members new = []" "exec c h = Inr (h @ [new])"
    using exec_constructor by blast
  with e have "h1 = h @ [new]" by simp
  with new(1) have "slice h1 r = slice h r"
    by (simp add: slice_def deref_append deref_length)
  with False show ?thesis by (simp add: added_constructor)
qed

lemma added_Cons: "added r (c # prog) = added r [c] @ added r prog"
  by (cases c) simp_all

lemma run_slice:
  "run prog h = Inr h' \<Longrightarrow> deref h' r = Some nd \<Longrightarrow> \<not> enlisted nd \<Longrightarrow>
   members nd = slice h r @ added r prog"
proof (induction prog arbitrary: h)
  case Nil
  then show ?case by (simp add: slice_def)
next
  case (Cons c prog)
  from Cons.prems(1) obtain h1 where h1: "exec c h = Inr h1" "run prog h1 = Inr h'"
    by (auto split: sum.splits)
  have "\<not> is_enlisted h1 r"
  proof
    assume "is_enlisted h1 r"
    then obtain nd1 where "deref h1 r = Some nd1" "enlisted nd1"
      by (auto simp: is_enlisted_def split: option.splits)
    with run_is_enlisted[OF h1(2)] Cons.prems(2,3) show False by fastforce
  qed
  with h1(1) have "slice h1 r = slice h r @ added r [c]" by (rule exec_slice)
  moreover have "members nd = slice h1 r @ added r prog"
    using Cons.IH[OF h1(2) Cons.prems(2,3)] .
  ultimately show ?case using added_Cons[of r c prog] by simp
qed

lemma run_members_added:
  "run prog [] = Inr h \<Longrightarrow> deref h r = Some nd \<Longrightarrow> \<not> enlisted nd \<Longrightarrow>
   members nd = added r prog"
  using run_slice[of prog "[]" h r nd] by (simp add: slice_def deref_def)

subsection \<open>Lines of a broadcast and power calls\<close>

lemma message_counts:
  "\<not> enlisted nd \<Longrightarrow>
   \<exists>unit \<in> set [''Brigades'', ''Platoons'', ''Squads'', ''Enlistees''].
     message nd = ''Briefing '' @ decimal (length (members nd)) @ '' '' @ unit"
  by (cases nd) simp_all

lemma Brief_members:
  assumes h: "holds h t" and nd: "deref h (root t) = Some nd" and n: "height t \<le> n"
  shows "list_all2 (\<lambda>c out. Brief n h c orders = Inr out) (members nd)
           (map (broadcast h orders) (case t of Shape r ts \<Rightarrow> ts))"
proof (cases t)
  case (Shape r ts)
  with h nd have m: "members nd = map root ts" and sub: "list_all (holds h) ts"
    by (auto split: option.splits)
  have "list_all2 (\<lambda>c out. Brief n h c orders = Inr out) (map root ts)
          (map (broadcast h orders) ts)"
    unfolding list_all2_map1 list_all2_map2
  proof (rule list_all2_same[THEN iffD2], rule ballI)
    fix s assume s: "s \<in> set ts"
    with sub have "holds h s" by (simp add: list_all_iff)
    moreover from s n Shape have "levels s \<le> n"
      using levels_sub[of s ts] by (simp add: height_def)
    ultimately show "Brief n h (root s) orders = Inr (broadcast h orders s)"
      by (rule Brief_broadcast)
  qed
  with m Shape show ?thesis by simp
qed

lemma height_less: "height t < n \<longleftrightarrow> levels t \<le> n"
  by (cases t) (auto simp: height_def)

lemma Brief_height: "holds h t \<Longrightarrow> Brief (Suc (height t)) h (root t) orders = Inr (broadcast h orders t)"
  by (rule Brief_broadcast) (simp_all add: height_less[symmetric])

lemma count_concat:
  assumes "\<And>t. t \<in> set ts \<Longrightarrow> length (filter p (f t)) = count_list (g t) x"
  shows "length (filter p (concat (map f ts))) = count_list (concat (map g ts)) x"
  using assms by (induction ts) simp_all

lemma holds_enlisted_no_subs:
  "holds h (Shape r ts) \<Longrightarrow> deref h r = Some nd \<Longrightarrow> enlisted nd \<Longrightarrow> ts = []"
  by (cases nd) simp_all

lemma count_broadcast:
  "holds h t \<Longrightarrow> length (filter (\<lambda>e. fst e = x) (broadcast h orders t)) = count_list (refs t) x"
proof (induction t)
  case (Shape r ts)
  from Shape.prems obtain nd where nd: "deref h r = Some nd"
    and sub: "list_all (holds h) ts"
    by (auto split: option.splits)
  show ?case
  proof (cases "enlisted nd")
    case True
    with Shape.prems nd have "ts = []" using holds_enlisted_no_subs by blast
    with True nd show ?thesis by auto
  next
    case False
    have "length (filter (\<lambda>e. fst e = x) (concat (map (broadcast h orders) ts))) =
          count_list (concat (map refs ts)) x"
      by (rule count_concat) (use Shape.IH sub in \<open>simp add: list_all_iff\<close>)
    with False nd show ?thesis by auto
  qed
qed

lemma enlisted_lines:
  "holds h t \<Longrightarrow> e \<in> set (broadcast h orders t) \<Longrightarrow> is_enlisted h (fst e) \<Longrightarrow> snd e = orders"
proof (induction t)
  case (Shape r ts)
  from Shape.prems(1) obtain nd where nd: "deref h r = Some nd"
    and sub: "list_all (holds h) ts"
    by (auto split: option.splits)
  show ?case
  proof (cases "enlisted nd")
    case True
    with nd Shape.prems(2) show ?thesis by simp
  next
    case False
    with nd Shape.prems(2) consider "e = (r, message nd)"
      | s where "s \<in> set ts" "e \<in> set (broadcast h orders s)"
      by auto
    then show ?thesis
    proof cases
      case 1
      with False nd Shape.prems(3) show ?thesis by (simp add: is_enlisted_def)
    next
      case 2
      with sub have "holds h s" by (simp add: list_all_iff)
      with 2 Shape.IH Shape.prems(3) show ?thesis by blast
    qed
  qed
qed

lemma filter_one:
  assumes "length (filter p xs) = 1" and "\<And>e. e \<in> set xs \<Longrightarrow> p e \<Longrightarrow> e = a"
  shows "filter p xs = [a]"
proof -
  from assms(1) obtain e where e: "filter p xs = [e]"
    by (cases "filter p xs") auto
  then have "e \<in> set (filter p xs)" by simp
  then have "e \<in> set xs" "p e" by simp_all
  with assms(2) e show ?thesis by simp
qed

lemma leaves_concat:
  "leaves h (Shape r ts) = (if is_enlisted h r then [r] else []) @ concat (map (leaves h) ts)"
  by (simp add: leaves_def[abs_def] filter_concat comp_def)

lemma filter_broadcast:
  "holds h t \<Longrightarrow>
   filter (\<lambda>e. is_enlisted h (fst e)) (broadcast h orders t) = map (\<lambda>l. (l, orders)) (leaves h t)"
proof (induction t)
  case (Shape r ts)
  from Shape.prems obtain nd where nd: "deref h r = Some nd"
    and sub: "list_all (holds h) ts"
    by (auto split: option.splits)
  show ?case
  proof (cases "enlisted nd")
    case True
    with Shape.prems nd have "ts = []" using holds_enlisted_no_subs by blast
    with True nd show ?thesis by (simp add: leaves_def is_enlisted_def)
  next
    case False
    let ?P = "\<lambda>e. is_enlisted h (fst e)" and ?g = "\<lambda>l. (l, orders)"
    have eq: "map (\<lambda>s. filter ?P (broadcast h orders s)) ts = map (\<lambda>s. map ?g (leaves h s)) ts"
      using Shape.IH sub by (simp add: list_all_iff)
    have "filter ?P (concat (map (broadcast h orders) ts)) =
          concat (map (\<lambda>s. filter ?P (broadcast h orders s)) ts)"
      by (simp add: filter_concat comp_def)
    also have "\<dots> = concat (map (\<lambda>s. map ?g (leaves h s)) ts)"
      using eq by (rule arg_cong)
    also have "\<dots> = map ?g (concat (map (leaves h) ts))"
      by (simp add: map_concat comp_def)
    finally have "filter ?P (concat (map (broadcast h orders) ts)) =
        map ?g (concat (map (leaves h) ts))" .
    moreover from False nd have "\<not> is_enlisted h r" by (simp add: is_enlisted_def)
    ultimately show ?thesis using False nd by (simp add: leaves_concat)
  qed
qed

lemma os_power: "os (embedded (fst (power c d))) = os (embedded d)"
  by (cases c; cases d) (simp_all add: TurnOn_def TurnOff_def split: prod.splits)

lemma os_powers: "os (embedded (fst (powers cs d))) = os (embedded d)"
proof (induction cs arbitrary: d)
  case Nil
  show ?case by simp
next
  case (Cons c cs)
  have "os (embedded (fst (powers cs (fst (power c d))))) = os (embedded (fst (power c d)))"
    by (rule Cons.IH)
  then show ?case by (simp add: os_power split: prod.splits) (metis fst_conv os_power)
qed

lemma IPhone_GetOS_embedded: "IPhone_GetOS d = os (embedded d)"
  by (cases d) (simp_all add: GetOS_def)

subsection \<open>Phone calls through the interface\<close>

lemma call_on_nil:
  "call_GetOS None = Inl NilDereference"
  "call_TurnOn None = Inl NilDereference"
  "call_TurnOff None = Inl NilDereference"
  by (simp_all add: call_GetOS_def call_TurnOn_def call_TurnOff_def)

lemma call_powers_device:
  "call_powers cs (Some d) = Inr (Some (fst (powers cs d)), snd (powers cs d))"
proof (induction cs arbitrary: d)
  case Nil
  show ?case by simp
next
  case (Cons c cs)
  show ?case
    by (cases c) (simp_all add: call_TurnOn_def call_TurnOff_def Cons.IH split: prod.splits)
qed

subsection \<open>The example store\<close>

lemma holds_scenario:
  "holds [Division ''1st'' [1], Brigade ''A'' [2], Platoon ''1'' [3],
          Squad ''alpha'' [4, 5], Enlisted ''Smith'', Enlisted ''Jones''] scenario_shape"
  by (simp add: scenario_shape_def deref_def)

lemma tree_scenario:
  "tree [Division ''1st'' [1], Brigade ''A'' [2], Platoon ''1'' [3],
         Squad ''alpha'' [4, 5], Enlisted ''Smith'', Enlisted ''Jones''] scenario_shape"
  using holds_scenario by (simp add: tree_def) (simp add: scenario_shape_def)

lemma scenario_shape_facts:
  "root scenario_shape = 0" "height scenario_shape = 4"
  by (simp_all add: scenario_shape_def height_def)

section \<open>The claims\<close>

text \<open>
  C1. Take a store built by a client program, a structure in it that has a
  finite unfolding (every tree has one) and whose root is a container. The
  slice of the container lists exactly the references the program added to it,
  in call order; its message carries their number; and \<^verbatim>\<open>Brief\<close> on the
  container returns the lines of \<^verbatim>\<open>Brief\<close> on each of them, one member after
  the other in that order, followed by the container's own message as the last
  line.
\<close>

theorem members_briefed_in_order_added:
  assumes "run prog [] = Inr h" and "holds h t" and "deref h (root t) = Some nd"
    and "\<not> enlisted nd" and "height t \<le> n"
  shows "members nd = added (root t) prog \<and>
    (\<exists>unit \<in> set [''Brigades'', ''Platoons'', ''Squads'', ''Enlistees''].
       message nd = ''Briefing '' @ decimal (length (added (root t) prog)) @ '' '' @ unit) \<and>
    (\<exists>outs. list_all2 (\<lambda>c out. Brief n h c orders = Inr out) (added (root t) prog) outs \<and>
       Brief (Suc n) h (root t) orders = Inr (concat outs @ [(root t, message nd)]))"
proof -
  have m: "members nd = added (root t) prog"
    using assms(1,3,4) by (rule run_members_added)
  obtain r ts where t: "t = Shape r ts" by (cases t)
  have "list_all2 (\<lambda>c out. Brief n h c orders = Inr out) (members nd)
          (map (broadcast h orders) ts)"
    using Brief_members[OF assms(2,3,5), of orders] t by simp
  moreover have "Brief (Suc n) h (root t) orders = Inr (broadcast h orders t)"
    using assms(2,5) by (intro Brief_broadcast) (simp_all add: height_less[symmetric])
  then have "Brief (Suc n) h (root t) orders =
      Inr (concat (map (broadcast h orders) ts) @ [(root t, message nd)])"
    using t assms(3,4) by (simp del: Brief.simps)
  ultimately show ?thesis
    using m message_counts[OF assms(4)] by auto
qed
theorem members_briefed_in_order_added_witness:
  "run [CallNewSquad ''alpha'', CallNewEnlisted ''Smith'', CallNewEnlisted ''Jones'',
        CallAdd 0 [2], CallAdd 0 [1]] [] =
     Inr [Squad ''alpha'' [2, 1], Enlisted ''Smith'', Enlisted ''Jones''] \<and>
   holds [Squad ''alpha'' [2, 1], Enlisted ''Smith'', Enlisted ''Jones'']
     (Shape 0 [Shape 2 [], Shape 1 []]) \<and>
   added 0 [CallNewSquad ''alpha'', CallNewEnlisted ''Smith'', CallNewEnlisted ''Jones'',
        CallAdd 0 [2], CallAdd 0 [1]] = [2, 1] \<and>
   Brief 2 [Squad ''alpha'' [2, 1], Enlisted ''Smith'', Enlisted ''Jones''] 0 ''Move out'' =
     Inr [(2, ''Move out''), (1, ''Move out''), (0, ''Briefing 2 Enlistees'')]"
proof -
  let ?prog = "[CallNewSquad ''alpha'', CallNewEnlisted ''Smith'', CallNewEnlisted ''Jones'',
        CallAdd 0 [2], CallAdd 0 [1]]"
  let ?h = "[Squad ''alpha'' [2, 1], Enlisted ''Smith'', Enlisted ''Jones'']"
  let ?t = "Shape 0 [Shape 2 [], Shape 1 []]"
  have run: "run ?prog [] = Inr ?h"
    by (simp add: NewSquad_def NewEnlisted_def alloc_def Add_def deref_def)
  have holds: "holds ?h ?t" by (simp add: deref_def)
  have nd: "deref ?h (root ?t) = Some (Squad ''alpha'' [2, 1])" by (simp add: deref_def)
  have ne: "\<not> enlisted (Squad ''alpha'' [2, 1])" by simp
  have ht: "height ?t \<le> 1" by (simp add: height_def)
  from members_briefed_in_order_added[OF run holds nd ne ht, of "''Move out''"]
  obtain outs where a: "[2, 1] = added 0 ?prog"
    and outs: "list_all2 (\<lambda>c out. Brief 1 ?h c ''Move out'' = Inr out) (added 0 ?prog) outs"
    and b: "Brief (Suc 1) ?h 0 ''Move out'' =
              Inr (concat outs @ [(0, message (Squad ''alpha'' [2, 1]))])"
    by auto
  from outs a[symmetric] have "outs = [[(2, ''Move out'')], [(1, ''Move out'')]]"
    by (simp add: list_all2_Cons1 deref_def)
  with b have "Brief 2 ?h 0 ''Move out'' =
     Inr [(2, ''Move out''), (1, ''Move out''), (0, ''Briefing 2 Enlistees'')]"
    by (simp add: decimal_digit numeral_2_eq_2 del: Brief.simps)
  with run holds a show ?thesis by simp
qed

text \<open>
  C2. On a tree (a structure whose unfolding repeats no reference),
  \<^verbatim>\<open>Brief\<close> at the root returns, and the lines printed by enlisted soldiers are
  exactly one line per enlisted soldier of the tree, in traversal order, each
  line being the orders themselves: every enlisted soldier of the tree printed
  one line, the orders, and nothing else.
\<close>

theorem one_order_per_enlisted:
  assumes "tree h t"
  shows "\<exists>out. Brief (Suc (height t)) h (root t) orders = Inr out \<and>
           filter (\<lambda>e. is_enlisted h (fst e)) out = map (\<lambda>l. (l, orders)) (leaves h t) \<and>
           distinct (leaves h t) \<and>
           (\<forall>l \<in> set (leaves h t). filter (\<lambda>e. fst e = l) out = [(l, orders)])"
proof -
  from assms have h: "holds h t" and d: "distinct (refs t)" by (simp_all add: tree_def)
  let ?out = "broadcast h orders t"
  have b: "Brief (Suc (height t)) h (root t) orders = Inr ?out"
    using h by (rule Brief_height)
  have one: "filter (\<lambda>e. fst e = l) ?out = [(l, orders)]" if l: "l \<in> set (leaves h t)" for l
  proof (rule filter_one)
    from l have "l \<in> set (refs t)" by (simp add: leaves_def)
    with d have "count_list (refs t) l = 1"
      using distinct_count_list[of "refs t"] count_list_0_iff[of "refs t" l]
      by (metis le_neq_implies_less less_one)
    then show "length (filter (\<lambda>e. fst e = l) ?out) = 1"
      using count_broadcast[OF h] by simp
  next
    fix e assume "e \<in> set ?out" "fst e = l"
    moreover from l have "is_enlisted h l" by (simp add: leaves_def)
    ultimately have "snd e = orders \<and> fst e = l"
      using enlisted_lines[OF h, of e orders] by simp
    then show "e = (l, orders)" by (simp add: prod_eq_iff)
  qed
  have dl: "distinct (leaves h t)" using d by (simp add: leaves_def)
  show ?thesis using b one dl filter_broadcast[OF h] by simp
qed
theorem one_order_per_enlisted_witness:
  "tree [Division ''1st'' [1], Brigade ''A'' [2], Platoon ''1'' [3],
         Squad ''alpha'' [4, 5], Enlisted ''Smith'', Enlisted ''Jones''] scenario_shape \<and>
   leaves [Division ''1st'' [1], Brigade ''A'' [2], Platoon ''1'' [3],
         Squad ''alpha'' [4, 5], Enlisted ''Smith'', Enlisted ''Jones''] scenario_shape = [4, 5] \<and>
   (\<exists>out. Brief 5 [Division ''1st'' [1], Brigade ''A'' [2], Platoon ''1'' [3],
         Squad ''alpha'' [4, 5], Enlisted ''Smith'', Enlisted ''Jones''] 0 ''Move out'' = Inr out \<and>
      filter (\<lambda>e. is_enlisted [Division ''1st'' [1], Brigade ''A'' [2], Platoon ''1'' [3],
         Squad ''alpha'' [4, 5], Enlisted ''Smith'', Enlisted ''Jones''] (fst e)) out =
        [(4, ''Move out''), (5, ''Move out'')] \<and>
      filter (\<lambda>e. fst e = 4) out = [(4, ''Move out'')] \<and>
      filter (\<lambda>e. fst e = 5) out = [(5, ''Move out'')])"
proof -
  let ?h = "[Division ''1st'' [1], Brigade ''A'' [2], Platoon ''1'' [3],
         Squad ''alpha'' [4, 5], Enlisted ''Smith'', Enlisted ''Jones'']"
  have l: "leaves ?h scenario_shape = [4, 5]"
    by (simp add: leaves_def scenario_shape_def is_enlisted_def deref_def)
  have ht: "Suc (height scenario_shape) = 5"
    by (simp add: scenario_shape_facts)
  from one_order_per_enlisted[OF tree_scenario, of "''Move out''"] show ?thesis
    unfolding l scenario_shape_facts(1) ht using tree_scenario by auto
qed

text \<open>
  C3. The division of the example, built with the constructors and
  \<^verbatim>\<open>Add\<close> and briefed with "Move out", prints the two orders of the enlisted
  soldiers and then the messages of the squad, the platoon, the brigade and the
  division, in this order; five nested calls are enough, and more change
  nothing.
\<close>

theorem scenario_prints:
  "\<exists>h out. run scenario [] = Inr h \<and> Brief (5 + n) h 0 ''Move out'' = Inr out \<and>
     printed out =
       [''Move out'', ''Move out'', ''Briefing 2 Enlistees'', ''Briefing 1 Squads'',
        ''Briefing 1 Platoons'', ''Briefing 1 Brigades'']"
  by (simp add: run_scenario deref_def decimal_digit printed_def numeral_eq_Suc)

text \<open>
  C4 (as the code has it). \<^verbatim>\<open>TurnOn\<close> prints its line exactly when the status
  was not "on" before the call, and leaves the device unchanged exactly when it
  was; a second \<^verbatim>\<open>TurnOn\<close> right after the first never prints. So two calls
  in a row print one line when the device did not start on, and none when it
  did. \<^verbatim>\<open>TurnOff\<close> is the same with "off".
\<close>

theorem power_notifies_on_change_only:
  "snd (IPhone_TurnOn d) = (if status (embedded d) = ''on'' then [] else [''Turning phone on'']) \<and>
   (fst (IPhone_TurnOn d) = d) = (status (embedded d) = ''on'') \<and>
   snd (IPhone_TurnOn (fst (IPhone_TurnOn d))) = [] \<and>
   snd (powers [CallTurnOn, CallTurnOn] d) =
     (if status (embedded d) = ''on'' then [] else [''Turning phone on'']) \<and>
   snd (IPhone_TurnOff d) = (if status (embedded d) = ''off'' then [] else [''Turning phone off'']) \<and>
   (fst (IPhone_TurnOff d) = d) = (status (embedded d) = ''off'') \<and>
   snd (IPhone_TurnOff (fst (IPhone_TurnOff d))) = [] \<and>
   snd (powers [CallTurnOff, CallTurnOff] d) =
     (if status (embedded d) = ''off'' then [] else [''Turning phone off''])"
proof (cases d)
  case (Android p)
  have "(p\<lparr>status := s\<rparr> = p) = (status p = s)" for s
    by (cases p) auto
  with Android show ?thesis by (auto simp: TurnOn_def TurnOff_def)
next
  case (Google p)
  have "(p\<lparr>status := s\<rparr> = p) = (status p = s)" for s
    by (cases p) auto
  with Google show ?thesis by (auto simp: TurnOn_def TurnOff_def)
qed

text \<open>A freshly constructed device is off: two \<^verbatim>\<open>TurnOff\<close> calls in a row print
  nothing at all, not one line.\<close>

theorem TurnOff_twice_prints_nothing:
  "snd (powers [CallTurnOff, CallTurnOff] NewAndroid) = [] \<and>
   length (snd (powers [CallTurnOff, CallTurnOff] NewAndroid)) \<noteq> 1"
  by (simp add: NewAndroid_def TurnOff_def)

text \<open>
  C5 (as the code has it). A reference may be added to anything, itself
  included, so a client can make a node its own ancestor. What holds: a
  constructor adds a one-node tree to the store and leaves every tree a tree;
  \<^verbatim>\<open>Add\<close> on an existing receiver succeeds, allocates nothing and changes no
  object but the receiver; and a tree stays a tree under \<^verbatim>\<open>Add\<close> when the
  added references are the roots of trees that share no node with each other
  nor with that tree. The tree afterwards has the same root, only nodes of the
  old tree and of the added ones, and no node of it is its own ancestor.
\<close>

theorem Add_keeps_tree:
  assumes t: "tree h t" and new: "list_all (tree h) new"
    and apart: "distinct (concat (map refs new))"
    and away: "set (refs t) \<inter> set (concat (map refs new)) = {}"
    and r: "deref h r = Some nd"
  shows "(\<forall>c. (\<forall>r' component. c \<noteq> CallAdd r' component) \<longrightarrow>
            (\<exists>h'. exec c h = Inr h' \<and> tree h' (Shape (length h) []) \<and> tree h' t)) \<and>
         (\<exists>h' t'. Add r (map root new) h = Inr h' \<and> length h' = length h \<and>
           (\<forall>x. x \<noteq> r \<longrightarrow> deref h' x = deref h x) \<and>
           tree h' t' \<and> root t' = root t \<and>
           set (refs t') \<subseteq> set (refs t) \<union> set (concat (map refs new)) \<and>
           (\<forall>x \<in> set (refs t'). \<not> ancestor h' x x))"
proof -
  have constructors: "\<exists>h'. exec c h = Inr h' \<and> tree h' (Shape (length h) []) \<and> tree h' t"
    if "\<forall>r' component. c \<noteq> CallAdd r' component" for c
  proof -
    from that obtain fresh where fresh: "members fresh = []" "exec c h = Inr (h @ [fresh])"
      using exec_constructor by blast
    from fresh(1) have "tree (h @ [fresh]) (Shape (length h) [])"
      by (simp add: tree_def deref_append)
    moreover from t have "tree (h @ [fresh]) t"
      by (simp add: tree_def holds_append)
    ultimately show ?thesis using fresh(2) by simp
  qed
  let ?h' = "h[r := append_members nd (map root new)]"
  have add: "Add r (map root new) h = Inr ?h'"
    using r by (rule Add_append_members)
  have frame: "\<forall>x. x \<noteq> r \<longrightarrow> deref ?h' x = deref h x"
    by (simp add: deref_update)
  have "\<exists>t'. tree ?h' t' \<and> root t' = root t \<and>
          set (refs t') \<subseteq> set (refs t) \<union> set (concat (map refs new))"
  proof (cases "enlisted nd \<or> r \<notin> set (refs t)")
    case True
    then have "holds ?h' t"
    proof
      assume "enlisted nd"
      then have "?h' = h" using r
        by (simp add: append_members_enlisted deref_def list_update_same_conv split: if_splits)
      with t show ?thesis by (simp add: tree_def)
    next
      assume "r \<notin> set (refs t)"
      with t show ?thesis by (simp add: tree_def holds_update)
    qed
    with t have "tree ?h' t" by (simp add: tree_def)
    then show ?thesis by blast
  next
    case False
    then have ne: "\<not> enlisted nd" and inside: "r \<in> set (refs t)" by simp_all
    from inside away have fresh: "r \<notin> set (concat (map refs new))" by blast
    from new have hn: "list_all (holds h) new" by (simp add: list_all_iff tree_def)
    from ne have m: "members (append_members nd (map root new)) = members nd @ map root new"
      by (simp add: members_append_members)
    from t have "holds ?h' (graft r new t)"
      using holds_graft[OF r m hn fresh] by (simp add: tree_def)
    moreover from t apart away have "distinct (refs (graft r new t))"
      by (simp add: tree_def distinct_refs_graft)
    ultimately have "tree ?h' (graft r new t)" by (simp add: tree_def)
    then show ?thesis using root_graft set_refs_graft by blast
  qed
  then obtain t' where t': "tree ?h' t'" "root t' = root t"
    "set (refs t') \<subseteq> set (refs t) \<union> set (concat (map refs new))"
    by blast
  from t'(1) have "\<forall>x \<in> set (refs t'). \<not> ancestor ?h' x x"
    using holds_no_ancestor_of_itself by (auto simp: tree_def)
  with add frame t' have "\<exists>h' t'. Add r (map root new) h = Inr h' \<and> length h' = length h \<and>
           (\<forall>x. x \<noteq> r \<longrightarrow> deref h' x = deref h x) \<and>
           tree h' t' \<and> root t' = root t \<and>
           set (refs t') \<subseteq> set (refs t) \<union> set (concat (map refs new)) \<and>
           (\<forall>x \<in> set (refs t'). \<not> ancestor h' x x)"
    by auto
  with constructors show ?thesis by blast
qed

theorem Add_keeps_tree_witness:
  "tree [Division ''1st'' [1], Brigade ''A'' [], Platoon ''1'' [3], Squad ''alpha'' []]
     (Shape 0 [Shape 1 []]) \<and>
   list_all (tree [Division ''1st'' [1], Brigade ''A'' [], Platoon ''1'' [3], Squad ''alpha'' []])
     [Shape 2 [Shape 3 []]] \<and>
   Add 1 [2] [Division ''1st'' [1], Brigade ''A'' [], Platoon ''1'' [3], Squad ''alpha'' []] =
     Inr [Division ''1st'' [1], Brigade ''A'' [2], Platoon ''1'' [3], Squad ''alpha'' []] \<and>
   (\<exists>t'. tree [Division ''1st'' [1], Brigade ''A'' [2], Platoon ''1'' [3], Squad ''alpha'' []] t' \<and>
      root t' = 0 \<and> set (refs t') \<subseteq> {0, 1, 2, 3}) \<and>
   (\<exists>h'. exec (CallNewEnlisted ''Smith'')
        [Division ''1st'' [1], Brigade ''A'' [], Platoon ''1'' [3], Squad ''alpha'' []] = Inr h' \<and>
      tree h' (Shape 4 []) \<and> tree h' (Shape 0 [Shape 1 []]))"
proof -
  let ?h = "[Division ''1st'' [1], Brigade ''A'' [], Platoon ''1'' [3], Squad ''alpha'' []]"
  let ?t = "Shape 0 [Shape 1 []]" and ?new = "[Shape 2 [Shape 3 []]]"
  have t: "tree ?h ?t" by (simp add: tree_def deref_def)
  have new: "list_all (tree ?h) ?new" by (simp add: tree_def deref_def)
  have apart: "distinct (concat (map refs ?new))" by simp
  have away: "set (refs ?t) \<inter> set (concat (map refs ?new)) = {}" by simp
  have r: "deref ?h 1 = Some (Brigade ''A'' [])" by (simp add: deref_def)
  have add: "Add 1 [2] ?h =
      Inr [Division ''1st'' [1], Brigade ''A'' [2], Platoon ''1'' [3], Squad ''alpha'' []]"
    by (simp add: Add_def deref_def)
  note inst = Add_keeps_tree[OF t new apart away r]
  have len: "length ?h = 4" by simp
  from inst have "\<exists>h'. exec (CallNewEnlisted ''Smith'') ?h = Inr h' \<and>
      tree h' (Shape (length ?h) []) \<and> tree h' ?t"
    by blast
  then have "\<exists>h'. exec (CallNewEnlisted ''Smith'') ?h = Inr h' \<and>
      tree h' (Shape 4 []) \<and> tree h' ?t"
    unfolding len .
  moreover from inst add
  have "\<exists>t'. tree [Division ''1st'' [1], Brigade ''A'' [2], Platoon ''1'' [3], Squad ''alpha'' []] t' \<and>
      root t' = 0 \<and> set (refs t') \<subseteq> {0, 1, 2, 3}"
    by auto
  ultimately show ?thesis using t new add by blast
qed

text \<open>A division added to itself is its own ancestor.\<close>

theorem Add_makes_own_ancestor:
  "run self_member [] = Inr [Division ''1st'' [0]] \<and> ancestor [Division ''1st'' [0]] 0 0"
  by (simp add: run_self_member ancestor.direct has_member_def deref_def)

text \<open>
  C6 (as the code has it). On a structure with a finite unfolding (no node
  its own ancestor) \<^verbatim>\<open>Brief\<close> returns, and it needs exactly one nested call more
  than the height of the unfolding: with that many it returns the broadcast,
  with fewer the stack runs out. The orders play no part in this; the height
  is whatever the client built with \<^verbatim>\<open>Add\<close>.
\<close>

theorem Brief_needs_height_frames:
  "holds h t \<Longrightarrow>
   Brief n h (root t) orders =
     (if height t < n then Inr (broadcast h orders t) else Inl StackOverflow)"
  by (simp add: height_less Brief_broadcast Brief_overflow)

theorem Brief_needs_height_frames_witness:
  "holds [Division ''1st'' [1], Brigade ''A'' [2], Platoon ''1'' [3],
          Squad ''alpha'' [4, 5], Enlisted ''Smith'', Enlisted ''Jones''] scenario_shape \<and>
   height scenario_shape = 4 \<and>
   Brief 5 [Division ''1st'' [1], Brigade ''A'' [2], Platoon ''1'' [3],
          Squad ''alpha'' [4, 5], Enlisted ''Smith'', Enlisted ''Jones''] 0 ''Move out'' =
     Inr [(4, ''Move out''), (5, ''Move out''), (3, ''Briefing 2 Enlistees''),
          (2, ''Briefing 1 Squads''), (1, ''Briefing 1 Platoons''),
          (0, ''Briefing 1 Brigades'')] \<and>
   Brief 4 [Division ''1st'' [1], Brigade ''A'' [2], Platoon ''1'' [3],
          Squad ''alpha'' [4, 5], Enlisted ''Smith'', Enlisted ''Jones''] 0 ''Move out'' =
     Inl StackOverflow"
proof -
  let ?h = "[Division ''1st'' [1], Brigade ''A'' [2], Platoon ''1'' [3],
          Squad ''alpha'' [4, 5], Enlisted ''Smith'', Enlisted ''Jones'']"
  have b: "broadcast ?h ''Move out'' scenario_shape =
     [(4, ''Move out''), (5, ''Move out''), (3, ''Briefing 2 Enlistees''),
      (2, ''Briefing 1 Squads''), (1, ''Briefing 1 Platoons''), (0, ''Briefing 1 Brigades'')]"
    by (simp add: scenario_shape_def deref_def decimal_digit)
  from Brief_needs_height_frames[OF holds_scenario, of 5 "''Move out''"]
  have "Brief 5 ?h 0 ''Move out'' = Inr (broadcast ?h ''Move out'' scenario_shape)"
    unfolding scenario_shape_facts by simp
  moreover from Brief_needs_height_frames[OF holds_scenario, of 4 "''Move out''"]
  have "Brief 4 ?h 0 ''Move out'' = Inl StackOverflow"
    unfolding scenario_shape_facts by simp
  ultimately show ?thesis
    using holds_scenario scenario_shape_facts(2) unfolding b by blast
qed

text \<open>On the division that was added to itself \<^verbatim>\<open>Brief\<close> returns at no
  bound.\<close>

theorem Brief_never_returns_on_self_member:
  "run self_member [] = Inr [Division ''1st'' [0]] \<and>
   \<not> (\<exists>n out. Brief n [Division ''1st'' [0]] 0 ''Move out'' = Inr out)"
  by (simp add: run_self_member self_member_overflow)

text \<open>
  C7 (as the code has it). On a device, which is what both constructors
  return, \<^verbatim>\<open>GetOS\<close>, \<^verbatim>\<open>TurnOn\<close> and \<^verbatim>\<open>TurnOff\<close> succeed whatever the status,
  and so does every sequence of power calls followed by \<^verbatim>\<open>GetOS\<close>.
  \<^verbatim>\<open>Add\<close> on an existing receiver succeeds whatever it is given, and with no
  arguments it leaves the store as it was. \<^verbatim>\<open>Brief\<close> on a container with an
  empty slice prints one line, the message with count 0, and succeeds; and
  \<^verbatim>\<open>Brief\<close> succeeds on every structure with a finite unfolding. On a structure
  in which a node is its own ancestor it does not.
\<close>

theorem operations_succeed:
  assumes "deref h r = Some nd"
  shows "call_GetOS (Some d) = Inr (os (embedded d)) \<and>
    (\<exists>d' out. call_TurnOn (Some d) = Inr (d', out)) \<and>
    (\<exists>d' out. call_TurnOff (Some d) = Inr (d', out)) \<and>
    (\<exists>d' out. call_powers cs (Some d) = Inr (Some d', out) \<and>
       call_GetOS (Some d') = Inr (os (embedded d))) \<and>
    (\<exists>h'. Add r component h = Inr h') \<and> Add r [] h = Inr h \<and>
    (\<not> enlisted nd \<and> members nd = [] \<longrightarrow>
       (\<exists>unit \<in> set [''Brigades'', ''Platoons'', ''Squads'', ''Enlistees''].
          Brief (Suc n) h r orders = Inr [(r, ''Briefing 0 '' @ unit)])) \<and>
    (\<forall>t. holds h t \<longrightarrow> (\<exists>out. Brief (Suc (height t)) h (root t) orders = Inr out))"
proof -
  have "call_GetOS (Some d) = Inr (os (embedded d))"
    by (simp add: call_GetOS_def IPhone_GetOS_embedded)
  moreover have "\<exists>d' out. call_TurnOn (Some d) = Inr (d', out)"
    by (cases "IPhone_TurnOn d") (simp add: call_TurnOn_def)
  moreover have "\<exists>d' out. call_TurnOff (Some d) = Inr (d', out)"
    by (cases "IPhone_TurnOff d") (simp add: call_TurnOff_def)
  moreover have "\<exists>d' out. call_powers cs (Some d) = Inr (Some d', out) \<and>
       call_GetOS (Some d') = Inr (os (embedded d))"
    by (simp add: call_powers_device call_GetOS_def IPhone_GetOS_embedded os_powers)
  moreover have "\<exists>h'. Add r component h = Inr h'"
    using Add_append_members[OF assms] by blast
  moreover have "Add r [] h = Inr h"
    using Add_append_members[OF assms, of "[]"] update_deref[OF assms]
    by (simp add: append_members_Nil)
  moreover have "\<exists>unit \<in> set [''Brigades'', ''Platoons'', ''Squads'', ''Enlistees''].
          Brief (Suc n) h r orders = Inr [(r, ''Briefing 0 '' @ unit)]"
    if "\<not> enlisted nd" "members nd = []"
    using that assms by (cases nd) (simp_all add: decimal_digit)
  moreover have "\<exists>out. Brief (Suc (height t)) h (root t) orders = Inr out" if "holds h t" for t
    using Brief_height[OF that] by blast
  ultimately show ?thesis by blast
qed

theorem operations_succeed_witness:
  "deref [Division ''1st'' []] 0 = Some (Division ''1st'' []) \<and>
   call_GetOS (Some NewGoogle) = Inr ''google'' \<and>
   (\<exists>d' out. call_TurnOn (Some NewAndroid) = Inr (d', out)) \<and>
   call_TurnOn (Some NewAndroid) =
     Inr (Android \<lparr>status = ''on'', os = ''android''\<rparr>, [''Turning phone on'']) \<and>
   (\<exists>d' out. call_TurnOff (Some NewAndroid) = Inr (d', out)) \<and>
   call_TurnOff (Some NewAndroid) = Inr (NewAndroid, []) \<and>
   (\<exists>d' out. call_powers [CallTurnOn, CallTurnOn, CallTurnOff] (Some NewAndroid) =
       Inr (Some d', out) \<and> call_GetOS (Some d') = Inr ''android'') \<and>
   call_powers [CallTurnOn, CallTurnOn, CallTurnOff] (Some NewAndroid) =
     Inr (Some NewAndroid, [''Turning phone on'', ''Turning phone off'']) \<and>
   Add 0 [] [Division ''1st'' []] = Inr [Division ''1st'' []] \<and>
   (\<exists>h'. Add 0 [7, 0] [Division ''1st'' []] = Inr h') \<and>
   holds [Division ''1st'' []] (Shape 0 []) \<and>
   (\<exists>out. Brief 1 [Division ''1st'' []] 0 ''Move out'' = Inr out) \<and>
   Brief 1 [Division ''1st'' []] 0 ''Move out'' = Inr [(0, ''Briefing 0 Brigades'')]"
proof -
  let ?h = "[Division ''1st'' []]"
  let ?cs = "[CallTurnOn, CallTurnOn, CallTurnOff]"
  have d: "deref ?h 0 = Some (Division ''1st'' [])" by (simp add: deref_def)
  have h: "holds ?h (Shape 0 [])" by (simp add: deref_def)
  have ht: "Suc (height (Shape 0 [])) = 1" by (simp add: height_def)
  have osA: "os (embedded NewAndroid) = ''android''" and osG: "os (embedded NewGoogle) = ''google''"
    by (simp_all add: NewAndroid_def NewGoogle_def)
  note android = operations_succeed[OF d, of NewAndroid ?cs "[7, 0]" 0 "''Move out''"]
  note google = operations_succeed[OF d, of NewGoogle ?cs "[7, 0]" 0 "''Move out''"]
  from google have "call_GetOS (Some NewGoogle) = Inr ''google''"
    unfolding osG by blast
  moreover from android have "\<exists>d' out. call_TurnOn (Some NewAndroid) = Inr (d', out)"
    by blast
  moreover have "call_TurnOn (Some NewAndroid) =
     Inr (Android \<lparr>status = ''on'', os = ''android''\<rparr>, [''Turning phone on''])"
    by (simp add: call_TurnOn_def NewAndroid_def TurnOn_def)
  moreover from android have "\<exists>d' out. call_TurnOff (Some NewAndroid) = Inr (d', out)"
    by blast
  moreover have "call_TurnOff (Some NewAndroid) = Inr (NewAndroid, [])"
    by (simp add: call_TurnOff_def NewAndroid_def TurnOff_def)
  moreover from android have "\<exists>d' out. call_powers ?cs (Some NewAndroid) = Inr (Some d', out) \<and>
      call_GetOS (Some d') = Inr ''android''"
    unfolding osA by blast
  moreover have "call_powers ?cs (Some NewAndroid) =
     Inr (Some NewAndroid, [''Turning phone on'', ''Turning phone off''])"
    by (simp add: call_TurnOn_def call_TurnOff_def NewAndroid_def TurnOn_def TurnOff_def)
  moreover from android have "\<exists>h'. Add 0 [7, 0] ?h = Inr h'" by blast
  moreover from android have "Add 0 [] ?h = Inr ?h" by blast
  moreover from android h
  have "\<exists>out. Brief (Suc (height (Shape 0 []))) ?h (root (Shape 0 [])) ''Move out'' = Inr out"
    by blast
  then have "\<exists>out. Brief 1 ?h 0 ''Move out'' = Inr out" unfolding ht by simp
  moreover have "Brief 1 ?h 0 ''Move out'' = Inr [(0, ''Briefing 0 Brigades'')]"
    by (simp add: deref_def decimal_digit)
  ultimately show ?thesis using d h by blast
qed

text \<open>A division and a brigade added to each other: \<^verbatim>\<open>Brief\<close> on either ends
  in a stack overflow at every bound.\<close>

theorem Brief_overflows_on_mutual_members:
  "run mutual_members [] = Inr [Division ''1st'' [1], Brigade ''A'' [0]] \<and>
   (\<forall>n. Brief n [Division ''1st'' [1], Brigade ''A'' [0]] 1 ''Move out'' = Inl StackOverflow)"
  using mutual_members_overflow by (simp add: run_mutual_members)

text \<open>
  C8. Whatever sequence of \<^verbatim>\<open>TurnOn\<close> and \<^verbatim>\<open>TurnOff\<close> calls a client makes,
  \<^verbatim>\<open>GetOS\<close> afterwards returns "android" on the device of \<^verbatim>\<open>NewAndroid\<close> and
  "google" on the device of \<^verbatim>\<open>NewGoogle\<close>, as it does on the fresh devices; the
  calls leave the \<open>os\<close> field of any device as it was.
\<close>

theorem os_never_changes:
  "IPhone_GetOS (fst (powers cs NewAndroid)) = ''android'' \<and>
   IPhone_GetOS (fst (powers cs NewGoogle)) = ''google'' \<and>
   IPhone_GetOS (fst (powers cs NewAndroid)) = IPhone_GetOS NewAndroid \<and>
   IPhone_GetOS (fst (powers cs NewGoogle)) = IPhone_GetOS NewGoogle \<and>
   os (embedded (fst (powers cs d))) = os (embedded d)"
  by (simp add: IPhone_GetOS_embedded os_powers) (simp add: NewAndroid_def NewGoogle_def)

text \<open>
  C9. \<^verbatim>\<open>Add\<close> on an enlisted soldier, with any arguments, succeeds and
  returns the store it was given: the arguments are dropped, the soldier and
  every other object are as before, and \<^verbatim>\<open>Brief\<close> on the soldier does
  afterwards what it did before, which is to print the orders.
\<close>

theorem Add_on_enlisted_changes_nothing:
  assumes "deref h r = Some (Enlisted name)"
  shows "\<exists>h'. Add r component h = Inr h' \<and> h' = h \<and>
           Brief n h' r orders = Brief n h r orders \<and>
           Brief (Suc n) h' r orders = Inr [(r, orders)]"
  using assms by (simp add: Add_def)

theorem Add_on_enlisted_changes_nothing_witness:
  "deref [Squad ''alpha'' [1], Enlisted ''Smith''] 1 = Some (Enlisted ''Smith'') \<and>
   Add 1 [0, 1, 9] [Squad ''alpha'' [1], Enlisted ''Smith''] =
     Inr [Squad ''alpha'' [1], Enlisted ''Smith''] \<and>
   Brief 1 [Squad ''alpha'' [1], Enlisted ''Smith''] 1 ''Move out'' = Inr [(1, ''Move out'')]"
proof -
  have d: "deref [Squad ''alpha'' [1], Enlisted ''Smith''] 1 = Some (Enlisted ''Smith'')"
    by (simp add: deref_def)
  from Add_on_enlisted_changes_nothing[OF d, of "[0, 1, 9]" 0 "''Move out''"] d
  show ?thesis by simp
qed

text \<open>
  C10. \<^verbatim>\<open>Add\<close> on a container appends every reference it is given to the
  slice, whether or not the reference is already there, occurs twice among the
  arguments or is a member of another container. \<^verbatim>\<open>Brief\<close> on a structure of
  the resulting store then prints, for every node, as many lines as the node
  has occurrences in the unfolding of the structure, and every line of an
  enlisted soldier is the orders.
\<close>

theorem Add_and_Brief_per_occurrence:
  assumes "deref h r = Some nd" and "\<not> enlisted nd"
  shows "\<exists>h' nd'. Add r component h = Inr h' \<and> deref h' r = Some nd' \<and>
     members nd' = members nd @ component \<and>
     (\<forall>t. holds h' t \<longrightarrow>
        (\<exists>out. Brief (Suc (height t)) h' (root t) orders = Inr out \<and>
           (\<forall>x. length (filter (\<lambda>e. fst e = x) out) = count_list (refs t) x) \<and>
           (\<forall>e \<in> set out. is_enlisted h' (fst e) \<longrightarrow> snd e = orders)))"
proof -
  let ?h' = "h[r := append_members nd component]"
  have "Add r component h = Inr ?h'"
    using assms(1) by (rule Add_append_members)
  moreover have "deref ?h' r = Some (append_members nd component)"
    using deref_valid[OF assms(1)] by (simp add: deref_update)
  moreover have "members (append_members nd component) = members nd @ component"
    using assms(2) by (simp add: members_append_members)
  moreover have "\<exists>out. Brief (Suc (height t)) ?h' (root t) orders = Inr out \<and>
           (\<forall>x. length (filter (\<lambda>e. fst e = x) out) = count_list (refs t) x) \<and>
           (\<forall>e \<in> set out. is_enlisted ?h' (fst e) \<longrightarrow> snd e = orders)"
    if "holds ?h' t" for t
    using Brief_height[OF that] count_broadcast[OF that] enlisted_lines[OF that] by blast
  ultimately show ?thesis by blast
qed

theorem Add_and_Brief_per_occurrence_witness:
  "deref [Platoon ''1'' [1, 2], Squad ''alpha'' [3], Squad ''bravo'' [], Enlisted ''Smith''] 2 =
     Some (Squad ''bravo'' []) \<and>
   Add 2 [3, 3] [Platoon ''1'' [1, 2], Squad ''alpha'' [3], Squad ''bravo'' [], Enlisted ''Smith''] =
     Inr [Platoon ''1'' [1, 2], Squad ''alpha'' [3], Squad ''bravo'' [3, 3], Enlisted ''Smith''] \<and>
   holds [Platoon ''1'' [1, 2], Squad ''alpha'' [3], Squad ''bravo'' [3, 3], Enlisted ''Smith'']
     (Shape 0 [Shape 1 [Shape 3 []], Shape 2 [Shape 3 [], Shape 3 []]]) \<and>
   (\<exists>out. Brief 3 [Platoon ''1'' [1, 2], Squad ''alpha'' [3], Squad ''bravo'' [3, 3],
                   Enlisted ''Smith''] 0 ''Move out'' = Inr out \<and>
      length (filter (\<lambda>e. fst e = 3) out) = 3) \<and>
   Brief 3 [Platoon ''1'' [1, 2], Squad ''alpha'' [3], Squad ''bravo'' [3, 3],
            Enlisted ''Smith''] 0 ''Move out'' =
     Inr [(3, ''Move out''), (1, ''Briefing 1 Enlistees''), (3, ''Move out''), (3, ''Move out''),
          (2, ''Briefing 2 Enlistees''), (0, ''Briefing 2 Squads'')]"
proof -
  let ?h = "[Platoon ''1'' [1, 2], Squad ''alpha'' [3], Squad ''bravo'' [], Enlisted ''Smith'']"
  let ?h' = "[Platoon ''1'' [1, 2], Squad ''alpha'' [3], Squad ''bravo'' [3, 3], Enlisted ''Smith'']"
  let ?t = "Shape 0 [Shape 1 [Shape 3 []], Shape 2 [Shape 3 [], Shape 3 []]]"
  have d: "deref ?h 2 = Some (Squad ''bravo'' [])" by (simp add: deref_def)
  have ne: "\<not> enlisted (Squad ''bravo'' [])" by simp
  have add: "Add 2 [3, 3] ?h = Inr ?h'" by (simp add: Add_def deref_def)
  have h: "holds ?h' ?t" by (simp add: deref_def)
  have ht: "Suc (height ?t) = 3" and rt: "root ?t = 0" and c: "count_list (refs ?t) 3 = 3"
    by (simp_all add: height_def)
  from Add_and_Brief_per_occurrence[OF d ne, of "[3, 3]" "''Move out''"] add
  have "\<forall>t. holds ?h' t \<longrightarrow>
        (\<exists>out. Brief (Suc (height t)) ?h' (root t) ''Move out'' = Inr out \<and>
           (\<forall>x. length (filter (\<lambda>e. fst e = x) out) = count_list (refs t) x) \<and>
           (\<forall>e \<in> set out. is_enlisted ?h' (fst e) \<longrightarrow> snd e = ''Move out''))"
    by auto
  with h obtain out where "Brief (Suc (height ?t)) ?h' (root ?t) ''Move out'' = Inr out"
    "length (filter (\<lambda>e. fst e = 3) out) = count_list (refs ?t) 3"
    by blast
  then have "\<exists>out. Brief 3 ?h' 0 ''Move out'' = Inr out \<and> length (filter (\<lambda>e. fst e = 3) out) = 3"
    unfolding ht rt c by blast
  moreover have "Brief 3 ?h' 0 ''Move out'' =
     Inr [(3, ''Move out''), (1, ''Briefing 1 Enlistees''), (3, ''Move out''), (3, ''Move out''),
          (2, ''Briefing 2 Enlistees''), (0, ''Briefing 2 Squads'')]"
    by (simp add: numeral_3_eq_3 deref_def decimal_digit)
  ultimately show ?thesis using d add h by blast
qed

end
